theory Spec2Isabelle
  imports Main
begin

section \<open>The v2-push apply display loop\<close>

text \<open>
  This theory embeds \<^verbatim>\<open>processApplyStreams\<close> and \<^verbatim>\<open>processEvent\<close> of the
  \<^verbatim>\<open>V2PushCommand\<close> (package \<^verbatim>\<open>command/v2\<close>). The command consumes three Go channels
  produced by \<^verbatim>\<open>pushaction.Apply\<close> inside one \<^verbatim>\<open>for { select { ... } }\<close> loop
  and writes to the command's UI. Calls of the logger (\<^verbatim>\<open>log.Debug\<close>, \<^verbatim>\<open>log.Infoln\<close>)
  touch neither the control flow nor the UI and are left out.
\<close>

subsection \<open>Data\<close>

text \<open>
  \<^verbatim>\<open>pushaction.Event\<close> is declared outside the given sources. The switch of
  \<^verbatim>\<open>processEvent\<close> names seven constants of the type (pairwise different, or the Go
  compiler would reject the switch); every other value of the type is an \<open>OtherEvent\<close>.
\<close>

datatype Event =
    ApplicationCreated
  | ApplicationUpdated
  | RouteCreated
  | RouteBound
  | UploadingApplication
  | UploadComplete
  | Complete
  | OtherEvent string

text \<open>A non-nil Go \<^verbatim>\<open>error\<close>; a value of the interface type is an \<open>error option\<close>, \<open>None\<close> being \<^verbatim>\<open>nil\<close>.\<close>

datatype error = Error string

type_synonym Warnings = "string list"

text \<open>
  What the command reads from \<^verbatim>\<open>cmd.Config\<close>: the pair returned by \<^verbatim>\<open>CurrentUser()\<close>
  (the user's \<^verbatim>\<open>Name\<close> and the error) and the names of the targeted organization and space.
\<close>

record command_Config =
  CurrentUser :: "string \<times> error option"
  TargetedOrganizationName :: string
  TargetedSpaceName :: string

text \<open>Of \<^verbatim>\<open>pushaction.ApplicationConfig\<close> only \<^verbatim>\<open>DesiredApplication.Name\<close> is read.\<close>

record ApplicationConfig =
  DesiredApplicationName :: string

text \<open>
  \<^verbatim>\<open>command.UI\<close> is an interface implemented elsewhere. The UI is the sequence of the
  calls made on it, oldest first; the template map of \<^verbatim>\<open>DisplayTextWithFlavor\<close> is kept
  as the list of its entries in source order.
\<close>

datatype ui_call =
    DisplayText string
  | DisplayTextWithFlavor string "(string \<times> string) list"
  | DisplayWarnings Warnings

record V2PushCommand =
  UI :: "ui_call list"
  Config :: command_Config

text \<open>
  Modelled from the spec: the display sink behind \<^verbatim>\<open>command.UI\<close> is not among the sources.
  Each text call appends one line, and a batch of warnings is flushed as one line per
  warning, in the order of the batch.
\<close>

datatype line =
    TextLine string
  | FlavorLine string "(string \<times> string) list"
  | WarningLine string

fun lines_of :: "ui_call \<Rightarrow> line list" where
  "lines_of (DisplayText t) = [TextLine t]"
| "lines_of (DisplayTextWithFlavor t m) = [FlavorLine t m]"
| "lines_of (DisplayWarnings ws) = map WarningLine ws"

definition rendered :: "ui_call list \<Rightarrow> line list" where
  "rendered calls = concat (map lines_of calls)"

subsection \<open>Channels and the select statement\<close>

text \<open>
  A receive-only channel as the loop sees it: the values the producer still sends, in
  order, and whether the producer closes the channel after them. A channel that is never
  closed and has nothing left to deliver blocks every receive.
\<close>

record 'a chan =
  items :: "'a list"
  closes :: bool

text \<open>
  \<^verbatim>\<open>v, ok := <-ch\<close>: \<open>Value v\<close> is \<^verbatim>\<open>(v, true)\<close>, \<open>Closed\<close> is the zero value with
  \<^verbatim>\<open>ok == false\<close>. A receive from a closed channel succeeds at once, every time, and leaves
  the channel as it is; \<open>None\<close> means the receive would block.
\<close>

datatype 'a received = Value 'a | Closed

definition receive :: "'a chan \<Rightarrow> ('a received \<times> 'a chan) option" where
  "receive ch =
     (case items ch of
        x # xs \<Rightarrow> Some (Value x, ch\<lparr>items := xs\<rparr>)
      | [] \<Rightarrow> (if closes ch then Some (Closed, ch) else None))"

text \<open>The case of the \<^verbatim>\<open>select\<close> that the Go runtime takes in one iteration.\<close>

datatype pick = EventStream | WarningsStream | ErrorStream

subsection \<open>processEvent\<close>

fun processEvent ::
  "command_Config \<Rightarrow> ApplicationConfig \<Rightarrow> Event \<Rightarrow> ui_call list
     \<Rightarrow> (bool \<times> error option) \<times> ui_call list" where
  "processEvent cfg appConfig ApplicationCreated u =
     (case CurrentUser cfg of
        (user, Some err) \<Rightarrow> ((False, Some err), u)
      | (user, None) \<Rightarrow>
          ((False, None),
           u @ [DisplayTextWithFlavor
             ''Creating app {{.AppName}} in org {{.OrgName}} / space {{.SpaceName}} as {{.Username}}...''
             [(''AppName'', DesiredApplicationName appConfig),
              (''OrgName'', TargetedOrganizationName cfg),
              (''SpaceName'', TargetedSpaceName cfg),
              (''Username'', user)]]))"
| "processEvent cfg appConfig ApplicationUpdated u =
     (case CurrentUser cfg of
        (user, Some err) \<Rightarrow> ((False, Some err), u)
      | (user, None) \<Rightarrow>
          ((False, None),
           u @ [DisplayTextWithFlavor
             ''Updating app {{.AppName}} in org {{.OrgName}} / space {{.SpaceName}} as {{.Username}}...''
             [(''AppName'', DesiredApplicationName appConfig),
              (''OrgName'', TargetedOrganizationName cfg),
              (''SpaceName'', TargetedSpaceName cfg),
              (''Username'', user)]]))"
| "processEvent cfg appConfig RouteCreated u =
     ((False, None), u @ [DisplayText ''Creating routes...''])"
| "processEvent cfg appConfig RouteBound u =
     ((False, None), u @ [DisplayText ''Binding routes...''])"
| "processEvent cfg appConfig UploadingApplication u =
     ((False, None), u @ [DisplayText ''Uploading application...''])"
| "processEvent cfg appConfig UploadComplete u =
     ((False, None), u @ [DisplayText ''Upload complete''])"
| "processEvent cfg appConfig Complete u = ((True, None), u)"
| "processEvent cfg appConfig (OtherEvent v) u = ((False, None), u)"

subsection \<open>processApplyStreams\<close>

text \<open>
  The loop's variables: the three channels, the three flags declared at the top of
  \<^verbatim>\<open>processApplyStreams\<close>, and the UI. There is no flag for the error stream.
\<close>

record conf =
  eventStream :: "Event chan"
  warningsStream :: "Warnings chan"
  errorStream :: "error option chan"
  eventClosed :: bool
  warningsClosed :: bool
  complete :: bool
  ui :: "ui_call list"

text \<open>
  One pass through the body of the \<^verbatim>\<open>for\<close>: the pass blocks (the picked case is not
  ready), goes on to the next pass, or returns from the function.
\<close>

datatype outcome = Blocked | Continue conf | Return "error option" conf

text \<open>The test after the \<^verbatim>\<open>select\<close>; its \<^verbatim>\<open>break\<close> leaves the loop for \<^verbatim>\<open>return nil\<close>.\<close>

definition check :: "conf \<Rightarrow> outcome" where
  "check c =
     (if eventClosed c \<and> warningsClosed c \<and> complete c then Return None c else Continue c)"

text \<open>
  The three cases of the \<^verbatim>\<open>select\<close>. In the first case the \<^verbatim>\<open>break\<close> after
  \<^verbatim>\<open>eventClosed = true\<close> leaves the \<^verbatim>\<open>select\<close> only. The second case calls
  \<^verbatim>\<open>DisplayWarnings\<close> also when the channel is closed, with the zero value \<^verbatim>\<open>nil\<close>.
  The third case sets \<^verbatim>\<open>warningsClosed\<close> when the error channel is closed and returns
  \<^verbatim>\<open>err\<close> in both branches; for a closed channel \<^verbatim>\<open>err\<close> is the zero value \<^verbatim>\<open>nil\<close>.
\<close>

definition iteration ::
  "command_Config \<Rightarrow> ApplicationConfig \<Rightarrow> pick \<Rightarrow> conf \<Rightarrow> outcome" where
  "iteration cfg appConfig p c =
     (case p of
        EventStream \<Rightarrow>
          (case receive (eventStream c) of
             None \<Rightarrow> Blocked
           | Some (Closed, ch) \<Rightarrow> check (c\<lparr>eventStream := ch, eventClosed := True\<rparr>)
           | Some (Value event, ch) \<Rightarrow>
               (case processEvent cfg appConfig event (ui c) of
                  ((done, Some err), ui') \<Rightarrow>
                    Return (Some err) (c\<lparr>eventStream := ch, complete := done, ui := ui'\<rparr>)
                | ((done, None), ui') \<Rightarrow>
                    check (c\<lparr>eventStream := ch, complete := done, ui := ui'\<rparr>)))
      | WarningsStream \<Rightarrow>
          (case receive (warningsStream c) of
             None \<Rightarrow> Blocked
           | Some (Closed, ch) \<Rightarrow>
               check (c\<lparr>warningsStream := ch, warningsClosed := True,
                        ui := ui c @ [DisplayWarnings []]\<rparr>)
           | Some (Value warnings, ch) \<Rightarrow>
               check (c\<lparr>warningsStream := ch, ui := ui c @ [DisplayWarnings warnings]\<rparr>))
      | ErrorStream \<Rightarrow>
          (case receive (errorStream c) of
             None \<Rightarrow> Blocked
           | Some (Closed, ch) \<Rightarrow> Return None (c\<lparr>errorStream := ch, warningsClosed := True\<rparr>)
           | Some (Value err, ch) \<Rightarrow> Return err (c\<lparr>errorStream := ch\<rparr>)))"

text \<open>
  The loop, driven by the sequence of cases the runtime's \<^verbatim>\<open>select\<close> takes. A pick whose
  channel is not ready is not taken (the \<^verbatim>\<open>select\<close> waits for another case). When the
  picks run out the function has not returned: the result is \<open>Running\<close>.
\<close>

datatype result = Running conf | Returned "error option" conf

fun run :: "command_Config \<Rightarrow> ApplicationConfig \<Rightarrow> pick list \<Rightarrow> conf \<Rightarrow> result" where
  "run cfg appConfig [] c = Running c"
| "run cfg appConfig (p # ps) c =
     (case iteration cfg appConfig p c of
        Blocked \<Rightarrow> run cfg appConfig ps c
      | Continue c' \<Rightarrow> run cfg appConfig ps c'
      | Return err c' \<Rightarrow> Returned err c')"

definition start ::
  "V2PushCommand \<Rightarrow> Event chan \<Rightarrow> Warnings chan \<Rightarrow> error option chan \<Rightarrow> conf" where
  "start cmd es ws errs =
     \<lparr>eventStream = es, warningsStream = ws, errorStream = errs,
      eventClosed = False, warningsClosed = False, complete = False, ui = UI cmd\<rparr>"

definition processApplyStreams ::
  "V2PushCommand \<Rightarrow> ApplicationConfig \<Rightarrow> pick list
     \<Rightarrow> Event chan \<Rightarrow> Warnings chan \<Rightarrow> error option chan \<Rightarrow> result" where
  "processApplyStreams cmd appConfig picks es ws errs =
     run (Config cmd) appConfig picks (start cmd es ws errs)"

subsection \<open>Notions used to state the properties\<close>

text \<open>The UI calls \<^verbatim>\<open>processEvent\<close> makes for an event, and the error it returns.\<close>

definition event_calls :: "command_Config \<Rightarrow> ApplicationConfig \<Rightarrow> Event \<Rightarrow> ui_call list" where
  "event_calls cfg appConfig ev = snd (processEvent cfg appConfig ev [])"

definition event_error :: "command_Config \<Rightarrow> Event \<Rightarrow> error option" where
  "event_error cfg ev =
     (if ev = ApplicationCreated \<or> ev = ApplicationUpdated then snd (CurrentUser cfg) else None)"

text \<open>The batches handed to \<^verbatim>\<open>DisplayWarnings\<close>, and the other calls, each in call order.\<close>

fun batches_shown :: "ui_call list \<Rightarrow> Warnings list" where
  "batches_shown [] = []"
| "batches_shown (DisplayWarnings ws # calls) = ws # batches_shown calls"
| "batches_shown (DisplayText t # calls) = batches_shown calls"
| "batches_shown (DisplayTextWithFlavor t m # calls) = batches_shown calls"

fun text_calls :: "ui_call list \<Rightarrow> ui_call list" where
  "text_calls [] = []"
| "text_calls (DisplayWarnings ws # calls) = text_calls calls"
| "text_calls (DisplayText t # calls) = DisplayText t # text_calls calls"
| "text_calls (DisplayTextWithFlavor t m # calls) = DisplayTextWithFlavor t m # text_calls calls"

text \<open>The loop variables at the end of a run, returned or not.\<close>

definition conf_of :: "result \<Rightarrow> conf" where
  "conf_of r = (case r of Running c \<Rightarrow> c | Returned e c \<Rightarrow> c)"

text \<open>
  An invariant of the running loop: a flag that is set stands for a channel that was read
  closed, and the test after the \<^verbatim>\<open>select\<close> has not succeeded yet.
\<close>

definition flags_ok :: "conf \<Rightarrow> bool" where
  "flags_ok c =
     ((\<not> eventClosed c \<or> (items (eventStream c) = [] \<and> closes (eventStream c))) \<and>
      (\<not> warningsClosed c \<or> (items (warningsStream c) = [] \<and> closes (warningsStream c))) \<and>
      \<not> (eventClosed c \<and> warningsClosed c \<and> complete c))"

text \<open>
  An invariant of the loop for the streams \<open>es\<close> and \<open>ws\<close> it was started on: the streams
  still close or not as they did, a set flag stands for a stream that was read closed,
  \<^verbatim>\<open>complete\<close> tells whether the last event processed was \<^verbatim>\<open>Complete\<close>, and what is
  left of either stream is a suffix of what it held.
\<close>

definition loop_inv :: "Event chan \<Rightarrow> Warnings chan \<Rightarrow> conf \<Rightarrow> bool" where
  "loop_inv es ws c =
     (closes (eventStream c) = closes es \<and> closes (warningsStream c) = closes ws \<and>
      (\<not> eventClosed c \<or> (items (eventStream c) = [] \<and> closes es)) \<and>
      (\<not> warningsClosed c \<or> (items (warningsStream c) = [] \<and> closes ws)) \<and>
      (\<exists>seen. items es = seen @ items (eventStream c) \<and>
         complete c = (seen \<noteq> [] \<and> last seen = Complete)) \<and>
      (\<exists>shown. items ws = shown @ items (warningsStream c)))"

text \<open>How many receives it takes until a stream has been read closed.\<close>

definition reads_left :: "'a chan \<Rightarrow> bool \<Rightarrow> nat" where
  "reads_left ch flag = (if flag then 0 else Suc (length (items ch)))"

text \<open>
  What the UI and the two streams of a later state \<open>c\<close> owe to an earlier state \<open>c0\<close>:
  the UI grew by the calls \<open>new\<close>; \<open>k\<close> events and \<open>j\<close> warning batches were received;
  the batches displayed are these \<open>j\<close> batches, in order, followed by \<open>n\<close> empty
  batches displayed on reading the closed stream; the other calls are those of the \<open>k\<close>
  events, in order.
\<close>

definition follows :: "command_Config \<Rightarrow> ApplicationConfig \<Rightarrow> conf \<Rightarrow> conf \<Rightarrow> bool" where
  "follows cfg app c0 c =
     (\<exists>new k j n.
        ui c = ui c0 @ new \<and>
        k \<le> length (items (eventStream c0)) \<and>
        items (eventStream c) = drop k (items (eventStream c0)) \<and>
        j \<le> length (items (warningsStream c0)) \<and>
        items (warningsStream c) = drop j (items (warningsStream c0)) \<and>
        batches_shown new = take j (items (warningsStream c0)) @ replicate n [] \<and>
        (n = 0 \<or> items (warningsStream c) = []) \<and>
        text_calls new = concat (map (event_calls cfg app) (take k (items (eventStream c0)))))"

text \<open>The warning lines among rendered lines, in order.\<close>

fun warning_lines :: "line list \<Rightarrow> string list" where
  "warning_lines [] = []"
| "warning_lines (WarningLine w # ls) = w # warning_lines ls"
| "warning_lines (TextLine t # ls) = warning_lines ls"
| "warning_lines (FlavorLine t m # ls) = warning_lines ls"

subsection \<open>Example inputs\<close>

definition cfg_ok :: command_Config where
  "cfg_ok = \<lparr>CurrentUser = (''admin'', None),
            TargetedOrganizationName = ''org'', TargetedSpaceName = ''space''\<rparr>"

definition cfg_nouser :: command_Config where
  "cfg_nouser = \<lparr>CurrentUser = ([], Some (Error ''user not set'')),
                TargetedOrganizationName = ''org'', TargetedSpaceName = ''space''\<rparr>"

definition app0 :: ApplicationConfig where
  "app0 = \<lparr>DesiredApplicationName = ''app''\<rparr>"

definition cmd_ok :: V2PushCommand where
  "cmd_ok = \<lparr>UI = [], Config = cfg_ok\<rparr>"

definition cmd_nouser :: V2PushCommand where
  "cmd_nouser = \<lparr>UI = [], Config = cfg_nouser\<rparr>"

text \<open>A channel that delivers \<open>xs\<close> and is then closed; one that delivers \<open>xs\<close> and stays open.\<close>

definition closing :: "'a list \<Rightarrow> 'a chan" where
  "closing xs = \<lparr>items = xs, closes = True\<rparr>"

definition staying_open :: "'a list \<Rightarrow> 'a chan" where
  "staying_open xs = \<lparr>items = xs, closes = False\<rparr>"

section \<open>One pass of the loop\<close>

lemmas example_defs =
  cfg_ok_def cfg_nouser_def app0_def cmd_ok_def cmd_nouser_def closing_def staying_open_def

lemmas loop_defs = processApplyStreams_def start_def iteration_def receive_def check_def

lemma receive_value: "items ch = x # xs \<Longrightarrow> receive ch = Some (Value x, ch\<lparr>items := xs\<rparr>)"
  by (simp add: receive_def)

lemma receive_closed: "items ch = [] \<Longrightarrow> closes ch \<Longrightarrow> receive ch = Some (Closed, ch)"
  by (simp add: receive_def)

lemma receive_blocks: "items ch = [] \<Longrightarrow> \<not> closes ch \<Longrightarrow> receive ch = None"
  by (simp add: receive_def)

lemma processEvent_calls:
  "snd (processEvent cfg app ev u) = u @ event_calls cfg app ev"
  by (cases ev) (simp_all add: event_calls_def split: prod.splits option.splits)

lemma processEvent_error:
  "snd (fst (processEvent cfg app ev u)) = event_error cfg ev"
  by (cases ev) (simp_all add: event_error_def split: prod.splits option.splits)

lemma processEvent_done:
  "fst (fst (processEvent cfg app ev u)) = (ev = Complete)"
  by (cases ev) (simp_all split: prod.splits option.splits)

lemma processEvent_eq:
  "processEvent cfg app ev u = ((ev = Complete, event_error cfg ev), u @ event_calls cfg app ev)"
  by (rule prod_eqI)
     (simp_all add: processEvent_calls processEvent_error processEvent_done prod_eq_iff)

lemma event_calls_error:
  "event_error cfg ev = Some e \<Longrightarrow> event_calls cfg app ev = []"
  by (cases ev; cases "CurrentUser cfg") (simp_all add: event_calls_def event_error_def)

lemma event_error_Complete: "event_error cfg Complete = None"
  by (simp add: event_error_def)

lemma iteration_event_fail:
  "items (eventStream c) = ev # evs \<Longrightarrow> event_error cfg ev = Some err \<Longrightarrow>
   iteration cfg app EventStream c =
     Return (Some err) (c\<lparr>eventStream := (eventStream c)\<lparr>items := evs\<rparr>, complete := False\<rparr>)"
  by (cases "ev = Complete")
     (simp_all add: iteration_def receive_value processEvent_eq event_calls_error
        event_error_Complete)

lemma iteration_event_ok:
  "items (eventStream c) = ev # evs \<Longrightarrow> event_error cfg ev = None \<Longrightarrow>
   iteration cfg app EventStream c =
     check (c\<lparr>eventStream := (eventStream c)\<lparr>items := evs\<rparr>, complete := (ev = Complete),
              ui := ui c @ event_calls cfg app ev\<rparr>)"
  by (simp add: iteration_def receive_value processEvent_eq)

lemma iteration_event_closed:
  "items (eventStream c) = [] \<Longrightarrow> closes (eventStream c) \<Longrightarrow>
   iteration cfg app EventStream c = check (c\<lparr>eventClosed := True\<rparr>)"
  by (simp add: iteration_def receive_closed)

lemma iteration_event_blocked:
  "items (eventStream c) = [] \<Longrightarrow> \<not> closes (eventStream c) \<Longrightarrow>
   iteration cfg app EventStream c = Blocked"
  by (simp add: iteration_def receive_blocks)

lemma iteration_warnings_value:
  "items (warningsStream c) = w # wrest \<Longrightarrow>
   iteration cfg app WarningsStream c =
     check (c\<lparr>warningsStream := (warningsStream c)\<lparr>items := wrest\<rparr>,
              ui := ui c @ [DisplayWarnings w]\<rparr>)"
  by (simp add: iteration_def receive_value)

lemma iteration_warnings_closed:
  "items (warningsStream c) = [] \<Longrightarrow> closes (warningsStream c) \<Longrightarrow>
   iteration cfg app WarningsStream c =
     check (c\<lparr>warningsClosed := True, ui := ui c @ [DisplayWarnings []]\<rparr>)"
  by (simp add: iteration_def receive_closed)

lemma iteration_warnings_blocked:
  "items (warningsStream c) = [] \<Longrightarrow> \<not> closes (warningsStream c) \<Longrightarrow>
   iteration cfg app WarningsStream c = Blocked"
  by (simp add: iteration_def receive_blocks)

lemma iteration_error_value:
  "items (errorStream c) = err # rest \<Longrightarrow>
   iteration cfg app ErrorStream c =
     Return err (c\<lparr>errorStream := (errorStream c)\<lparr>items := rest\<rparr>\<rparr>)"
  by (simp add: iteration_def receive_value)

lemma iteration_error_closed:
  "items (errorStream c) = [] \<Longrightarrow> closes (errorStream c) \<Longrightarrow>
   iteration cfg app ErrorStream c = Return None (c\<lparr>warningsClosed := True\<rparr>)"
  by (simp add: iteration_def receive_closed)

lemma iteration_error_blocked:
  "items (errorStream c) = [] \<Longrightarrow> \<not> closes (errorStream c) \<Longrightarrow>
   iteration cfg app ErrorStream c = Blocked"
  by (simp add: iteration_def receive_blocks)

lemma run_append:
  "run cfg app (xs @ ys) c =
     (case run cfg app xs c of
        Running c' \<Rightarrow> run cfg app ys c'
      | Returned e c' \<Rightarrow> Returned e c')"
  by (induction xs arbitrary: c) (simp_all split: outcome.splits)

section \<open>Invariants of the running loop\<close>

lemma check_Continue:
  "check c = Continue c' \<longleftrightarrow> c' = c \<and> \<not> (eventClosed c \<and> warningsClosed c \<and> complete c)"
  by (auto simp: check_def)

lemma check_Return:
  "check c = Return e c' \<longleftrightarrow> e = None \<and> c' = c \<and> eventClosed c \<and> warningsClosed c \<and> complete c"
  by (auto simp: check_def)

lemma check_not_Blocked: "check c \<noteq> Blocked"
  by (simp add: check_def)

lemma iteration_Continue_flags:
  assumes ok: "flags_ok c" and step: "iteration cfg app p c = Continue c'"
  shows "flags_ok c'"
proof (cases p)
  case EventStream
  show ?thesis
  proof (cases "items (eventStream c)")
    case Nil
    show ?thesis
    proof (cases "closes (eventStream c)")
      case True
      with Nil step EventStream have "c' = c\<lparr>eventClosed := True\<rparr>"
        and "\<not> (warningsClosed c \<and> complete c)"
        by (simp_all add: iteration_event_closed check_Continue)
      with ok Nil True show ?thesis by (simp add: flags_ok_def)
    next
      case False
      with Nil step EventStream show ?thesis by (simp add: iteration_event_blocked)
    qed
  next
    case (Cons ev evs)
    show ?thesis
    proof (cases "event_error cfg ev")
      case None
      with Cons step EventStream
      have "c' = c\<lparr>eventStream := (eventStream c)\<lparr>items := evs\<rparr>, complete := (ev = Complete),
              ui := ui c @ event_calls cfg app ev\<rparr>"
        by (simp add: iteration_event_ok check_Continue)
      with ok Cons show ?thesis by (simp add: flags_ok_def)
    next
      case (Some e)
      with Cons step EventStream show ?thesis by (simp add: iteration_event_fail)
    qed
  qed
next
  case WarningsStream
  show ?thesis
  proof (cases "items (warningsStream c)")
    case Nil
    show ?thesis
    proof (cases "closes (warningsStream c)")
      case True
      with Nil step WarningsStream
      have "c' = c\<lparr>warningsClosed := True, ui := ui c @ [DisplayWarnings []]\<rparr>"
        and "\<not> (eventClosed c \<and> complete c)"
        by (simp_all add: iteration_warnings_closed check_Continue)
      with ok Nil True show ?thesis by (simp add: flags_ok_def)
    next
      case False
      with Nil step WarningsStream show ?thesis by (simp add: iteration_warnings_blocked)
    qed
  next
    case (Cons w wrest)
    with step WarningsStream
    have "c' = c\<lparr>warningsStream := (warningsStream c)\<lparr>items := wrest\<rparr>,
              ui := ui c @ [DisplayWarnings w]\<rparr>"
      by (simp add: iteration_warnings_value check_Continue)
    with ok Cons show ?thesis by (simp add: flags_ok_def)
  qed
next
  case ErrorStream
  with step show ?thesis
    by (cases "items (errorStream c)"; cases "closes (errorStream c)")
       (simp_all add: iteration_error_value iteration_error_closed iteration_error_blocked)
qed

lemma run_Running_flags:
  "flags_ok c \<Longrightarrow> run cfg app picks c = Running c' \<Longrightarrow> flags_ok c'"
proof (induction picks arbitrary: c)
  case Nil
  then show ?case by simp
next
  case (Cons p ps)
  show ?case
  proof (cases "iteration cfg app p c")
    case Blocked
    with Cons show ?thesis by simp
  next
    case (Continue c1)
    with Cons.prems(1) have "flags_ok c1" by (rule iteration_Continue_flags[rotated -1, rotated])
    with Cons Continue show ?thesis by simp
  next
    case (Return e c1)
    with Cons show ?thesis by simp
  qed
qed

lemma flags_ok_start: "flags_ok (start cmd es ws errs)"
  by (simp add: flags_ok_def start_def)

lemma run_snoc:
  "run cfg app pre c0 = Running c \<Longrightarrow>
   run cfg app (pre @ [p]) c0 =
     (case iteration cfg app p c of
        Blocked \<Rightarrow> Running c
      | Continue c' \<Rightarrow> Running c'
      | Return err c' \<Rightarrow> Returned err c')"
  by (simp add: run_append split: outcome.splits)

lemma running_flags:
  "processApplyStreams cmd app picks es ws errs = Running c \<Longrightarrow> flags_ok c"
  unfolding processApplyStreams_def by (rule run_Running_flags [OF flags_ok_start])

lemma event_calls_length: "length (event_calls cfg app ev) \<le> 1"
  by (cases ev; cases "CurrentUser cfg"; cases "snd (CurrentUser cfg)")
     (simp_all add: event_calls_def)

lemma take_event:
  assumes run: "processApplyStreams cmd app pre es ws errs = Running c"
      and item: "items (eventStream c) = ev # evs"
  shows "processApplyStreams cmd app (pre @ [EventStream]) es ws errs =
     (case event_error (Config cmd) ev of
        Some e \<Rightarrow> Returned (Some e)
          (c\<lparr>eventStream := (eventStream c)\<lparr>items := evs\<rparr>, complete := False\<rparr>)
      | None \<Rightarrow> Running
          (c\<lparr>eventStream := (eventStream c)\<lparr>items := evs\<rparr>, complete := (ev = Complete),
             ui := ui c @ event_calls (Config cmd) app ev\<rparr>))"
proof -
  from run have "flags_ok c" by (rule running_flags)
  with item have open_ev: "\<not> eventClosed c" by (auto simp: flags_ok_def)
  from run have snoc: "run (Config cmd) app (pre @ [EventStream]) (start cmd es ws errs) =
     (case iteration (Config cmd) app EventStream c of
        Blocked \<Rightarrow> Running c
      | Continue c' \<Rightarrow> Running c'
      | Return err c' \<Rightarrow> Returned err c')"
    unfolding processApplyStreams_def by (rule run_snoc)
  show ?thesis
  proof (cases "event_error (Config cmd) ev")
    case None
    with item open_ev snoc show ?thesis
      by (simp add: processApplyStreams_def iteration_event_ok check_def)
  next
    case (Some e)
    with item snoc show ?thesis
      by (simp add: processApplyStreams_def iteration_event_fail)
  qed
qed


section \<open>What holds when the loop returns\<close>

lemma loop_inv_start: "loop_inv es ws (start cmd es ws errs)"
  by (simp add: loop_inv_def start_def)

lemma inv_event_closed:
  "loop_inv es ws c \<Longrightarrow> items (eventStream c) = [] \<Longrightarrow> closes (eventStream c) \<Longrightarrow>
   loop_inv es ws (c\<lparr>eventClosed := True\<rparr>)"
  by (simp add: loop_inv_def)

lemma inv_event_value:
  assumes "loop_inv es ws c" and item: "items (eventStream c) = ev # evs"
  shows "loop_inv es ws
     (c\<lparr>eventStream := (eventStream c)\<lparr>items := evs\<rparr>, complete := (ev = Complete), ui := u\<rparr>)"
proof -
  from assms obtain seen where d: "items es = seen @ ev # evs"
    by (auto simp: loop_inv_def)
  then have "items es = (seen @ [ev]) @ evs \<and>
      (ev = Complete) = (seen @ [ev] \<noteq> [] \<and> last (seen @ [ev]) = Complete)"
    by simp
  then have "\<exists>seen2. items es = seen2 @ evs \<and>
      (ev = Complete) = (seen2 \<noteq> [] \<and> last seen2 = Complete)"
    by (rule exI)
  with assms show ?thesis by (simp add: loop_inv_def)
qed

lemma inv_warnings_closed:
  "loop_inv es ws c \<Longrightarrow> items (warningsStream c) = [] \<Longrightarrow> closes (warningsStream c) \<Longrightarrow>
   loop_inv es ws (c\<lparr>warningsClosed := True, ui := u\<rparr>)"
  by (simp add: loop_inv_def)

lemma inv_warnings_value:
  assumes "loop_inv es ws c" and item: "items (warningsStream c) = w # wrest"
  shows "loop_inv es ws (c\<lparr>warningsStream := (warningsStream c)\<lparr>items := wrest\<rparr>, ui := u\<rparr>)"
proof -
  from assms obtain shown where "items ws = shown @ w # wrest"
    by (auto simp: loop_inv_def)
  then have "items ws = (shown @ [w]) @ wrest" by simp
  then have "\<exists>more. items ws = more @ wrest" by (rule exI)
  with assms show ?thesis by (simp add: loop_inv_def)
qed

lemma event_error_lookup: "event_error cfg ev = Some e \<Longrightarrow> snd (CurrentUser cfg) = Some e"
  by (simp add: event_error_def split: if_splits)

lemma event_error_ok: "snd (CurrentUser cfg) = None \<Longrightarrow> event_error cfg ev = None"
  by (simp add: event_error_def)

lemma iteration_inv:
  assumes inv: "loop_inv es ws c"
      and err: "p \<noteq> ErrorStream \<or> (items (errorStream c) = [] \<and> \<not> closes (errorStream c))"
  shows "case iteration cfg app p c of
           Blocked \<Rightarrow> True
         | Continue c' \<Rightarrow> loop_inv es ws c' \<and> errorStream c' = errorStream c \<and>
             \<not> (eventClosed c' \<and> warningsClosed c' \<and> complete c')
         | Return None c' \<Rightarrow> loop_inv es ws c' \<and>
             eventClosed c' \<and> warningsClosed c' \<and> complete c'
         | Return (Some e) c' \<Rightarrow> snd (CurrentUser cfg) = Some e"
proof (cases p)
  case EventStream
  show ?thesis
  proof (cases "items (eventStream c)")
    case Nil
    show ?thesis
    proof (cases "closes (eventStream c)")
      case True
      from inv_event_closed [OF inv Nil True] Nil True EventStream show ?thesis
        by (simp add: iteration_event_closed check_def)
    next
      case False
      with Nil EventStream show ?thesis by (simp add: iteration_event_blocked)
    qed
  next
    case (Cons ev evs)
    show ?thesis
    proof (cases "event_error cfg ev")
      case None
      from inv Cons have "\<not> eventClosed c" by (simp add: loop_inv_def)
      with inv_event_value [OF inv Cons, of "ui c @ event_calls cfg app ev"] Cons None EventStream
      show ?thesis by (simp add: iteration_event_ok check_def)
    next
      case (Some e)
      with Cons EventStream event_error_lookup [OF Some] show ?thesis
        by (simp add: iteration_event_fail)
    qed
  qed
next
  case WarningsStream
  show ?thesis
  proof (cases "items (warningsStream c)")
    case Nil
    show ?thesis
    proof (cases "closes (warningsStream c)")
      case True
      from inv_warnings_closed [OF inv Nil True, of "ui c @ [DisplayWarnings []]"]
        Nil True WarningsStream
      show ?thesis by (simp add: iteration_warnings_closed check_def)
    next
      case False
      with Nil WarningsStream show ?thesis by (simp add: iteration_warnings_blocked)
    qed
  next
    case (Cons w wrest)
    from inv Cons have "\<not> warningsClosed c" by (simp add: loop_inv_def)
    with inv_warnings_value [OF inv Cons, of "ui c @ [DisplayWarnings w]"] Cons WarningsStream
    show ?thesis by (simp add: iteration_warnings_value check_def)
  qed
next
  case ErrorStream
  with err show ?thesis by (simp add: iteration_error_blocked)
qed

lemma run_inv:
  assumes "loop_inv es ws c"
      and "\<not> (eventClosed c \<and> warningsClosed c \<and> complete c)"
      and "ErrorStream \<notin> set picks \<or> (items (errorStream c) = [] \<and> \<not> closes (errorStream c))"
  shows "case run cfg app picks c of
           Running c' \<Rightarrow> loop_inv es ws c' \<and>
             \<not> (eventClosed c' \<and> warningsClosed c' \<and> complete c')
         | Returned None c' \<Rightarrow> loop_inv es ws c' \<and>
             eventClosed c' \<and> warningsClosed c' \<and> complete c'
         | Returned (Some e) c' \<Rightarrow> snd (CurrentUser cfg) = Some e"
  using assms
proof (induction picks arbitrary: c)
  case Nil
  then show ?case by simp
next
  case (Cons p ps)
  from Cons.prems(3)
  have err: "p \<noteq> ErrorStream \<or> (items (errorStream c) = [] \<and> \<not> closes (errorStream c))"
    by auto
  note step = iteration_inv [OF Cons.prems(1) err, of cfg app]
  show ?case
  proof (cases "iteration cfg app p c")
    case Blocked
    from Cons.prems(3)
    have "ErrorStream \<notin> set ps \<or> (items (errorStream c) = [] \<and> \<not> closes (errorStream c))"
      by auto
    from Cons.IH [OF Cons.prems(1,2) this] Blocked show ?thesis by simp
  next
    case (Continue c1)
    with step have 1: "loop_inv es ws c1" and 2: "errorStream c1 = errorStream c"
      and 3: "\<not> (eventClosed c1 \<and> warningsClosed c1 \<and> complete c1)"
      by simp_all
    from Cons.prems(3) 2
    have "ErrorStream \<notin> set ps \<or> (items (errorStream c1) = [] \<and> \<not> closes (errorStream c1))"
      by auto
    from Cons.IH [OF 1 3 this] Continue show ?thesis by simp
  next
    case (Return e c1)
    with step show ?thesis by (cases e) simp_all
  qed
qed

section \<open>When the loop returns, and when it cannot\<close>

lemma closed_events_complete:
  "loop_inv es ws c \<Longrightarrow> eventClosed c \<Longrightarrow> items es \<noteq> [] \<Longrightarrow> last (items es) = Complete \<Longrightarrow>
   complete c"
  by (auto simp: loop_inv_def)

lemma iteration_reads_left:
  assumes inv: "loop_inv es ws c"
      and ok: "snd (CurrentUser cfg) = None"
      and step: "iteration cfg app p c = Continue c1"
  shows "reads_left (eventStream c1) (eventClosed c1)
           \<le> reads_left (eventStream c) (eventClosed c) - (if p = EventStream then 1 else 0)
       \<and> reads_left (warningsStream c1) (warningsClosed c1)
           \<le> reads_left (warningsStream c) (warningsClosed c) - (if p = WarningsStream then 1 else 0)"
proof (cases p)
  case EventStream
  show ?thesis
  proof (cases "items (eventStream c)")
    case Nil
    show ?thesis
    proof (cases "closes (eventStream c)")
      case True
      with Nil step EventStream have "c1 = c\<lparr>eventClosed := True\<rparr>"
        by (simp add: iteration_event_closed check_Continue)
      with EventStream show ?thesis by (simp add: reads_left_def)
    next
      case False
      with Nil step EventStream show ?thesis by (simp add: iteration_event_blocked)
    qed
  next
    case (Cons ev evs)
    from inv Cons have "\<not> eventClosed c" by (simp add: loop_inv_def)
    moreover from Cons step EventStream event_error_ok [OF ok, of ev]
    have "c1 = c\<lparr>eventStream := (eventStream c)\<lparr>items := evs\<rparr>, complete := (ev = Complete),
              ui := ui c @ event_calls cfg app ev\<rparr>"
      by (simp add: iteration_event_ok check_Continue)
    ultimately show ?thesis using Cons EventStream by (simp add: reads_left_def)
  qed
next
  case WarningsStream
  show ?thesis
  proof (cases "items (warningsStream c)")
    case Nil
    show ?thesis
    proof (cases "closes (warningsStream c)")
      case True
      with Nil step WarningsStream
      have "c1 = c\<lparr>warningsClosed := True, ui := ui c @ [DisplayWarnings []]\<rparr>"
        by (simp add: iteration_warnings_closed check_Continue)
      with WarningsStream show ?thesis by (simp add: reads_left_def)
    next
      case False
      with Nil step WarningsStream show ?thesis by (simp add: iteration_warnings_blocked)
    qed
  next
    case (Cons w wrest)
    from inv Cons have "\<not> warningsClosed c" by (simp add: loop_inv_def)
    moreover from Cons step WarningsStream
    have "c1 = c\<lparr>warningsStream := (warningsStream c)\<lparr>items := wrest\<rparr>,
              ui := ui c @ [DisplayWarnings w]\<rparr>"
      by (simp add: iteration_warnings_value check_Continue)
    ultimately show ?thesis using Cons WarningsStream by (simp add: reads_left_def)
  qed
next
  case ErrorStream
  with step show ?thesis
    by (cases "items (errorStream c)"; cases "closes (errorStream c)")
       (simp_all add: iteration_error_value iteration_error_closed iteration_error_blocked)
qed

lemma iteration_not_blocked:
  "closes (eventStream c) \<Longrightarrow> closes (warningsStream c) \<Longrightarrow> p \<noteq> ErrorStream \<Longrightarrow>
   iteration cfg app p c \<noteq> Blocked"
  by (cases p; cases "items (eventStream c)"; cases "items (warningsStream c)")
     (simp_all add: iteration_def receive_def check_def split: prod.splits option.splits)

lemma run_live:
  assumes "loop_inv es ws c"
      and "\<not> (eventClosed c \<and> warningsClosed c \<and> complete c)"
      and "ErrorStream \<notin> set picks \<or> (items (errorStream c) = [] \<and> \<not> closes (errorStream c))"
      and "closes es" and "closes ws" and "items es \<noteq> []" and "last (items es) = Complete"
      and "snd (CurrentUser cfg) = None"
      and "run cfg app picks c = Running c'"
  shows "count_list picks EventStream < reads_left (eventStream c) (eventClosed c)
       \<or> count_list picks WarningsStream < reads_left (warningsStream c) (warningsClosed c)"
  using assms(1,2,3,9)
proof (induction picks arbitrary: c)
  case Nil
  from closed_events_complete [OF Nil(1) _ assms(6,7)] Nil(2)
  have "\<not> eventClosed c \<or> \<not> warningsClosed c" by blast
  then show ?case by (auto simp: reads_left_def)
next
  case (Cons p ps)
  from Cons.prems(3)
  have err: "p \<noteq> ErrorStream \<or> (items (errorStream c) = [] \<and> \<not> closes (errorStream c))"
    by auto
  note step = iteration_inv [OF Cons.prems(1) err, of cfg app]
  show ?case
  proof (cases "iteration cfg app p c")
    case Blocked
    from Cons.prems(1) assms(4,5) have "closes (eventStream c)" "closes (warningsStream c)"
      by (simp_all add: loop_inv_def)
    with Blocked have p: "p = ErrorStream"
      using iteration_not_blocked [of c p cfg app] by blast
    from Cons.prems(3)
    have "ErrorStream \<notin> set ps \<or> (items (errorStream c) = [] \<and> \<not> closes (errorStream c))"
      by auto
    from Cons.IH [OF Cons.prems(1,2) this] Cons.prems(4) Blocked p show ?thesis by simp
  next
    case (Continue c1)
    with step have 1: "loop_inv es ws c1" and 2: "errorStream c1 = errorStream c"
      and 3: "\<not> (eventClosed c1 \<and> warningsClosed c1 \<and> complete c1)"
      by simp_all
    from Cons.prems(3) 2
    have 4: "ErrorStream \<notin> set ps \<or> (items (errorStream c1) = [] \<and> \<not> closes (errorStream c1))"
      by auto
    from Cons.prems(4) Continue have 5: "run cfg app ps c1 = Running c'" by simp
    note ih = Cons.IH [OF 1 3 4 5]
    note m = iteration_reads_left [OF Cons.prems(1) assms(8) Continue]
    from ih m show ?thesis by (cases p) auto
  next
    case (Return e c1)
    with Cons.prems(4) show ?thesis by simp
  qed
qed

lemma run_hangs:
  assumes "\<not> complete c" and "Complete \<notin> set (items (eventStream c))"
      and "items (errorStream c) = []" and "\<not> closes (errorStream c)"
      and ok: "snd (CurrentUser cfg) = None"
  shows "\<exists>c'. run cfg app picks c = Running c' \<and> \<not> complete c'"
  using assms(1-4)
proof (induction picks arbitrary: c)
  case Nil
  then show ?case by simp
next
  case (Cons p ps)
  have "iteration cfg app p c = Blocked \<or>
        (\<exists>c1. iteration cfg app p c = Continue c1 \<and> \<not> complete c1 \<and>
           Complete \<notin> set (items (eventStream c1)) \<and> errorStream c1 = errorStream c)"
  proof (cases p)
    case EventStream
    show ?thesis
    proof (cases "items (eventStream c)")
      case Nil
      with EventStream Cons.prems(1) show ?thesis
        by (cases "closes (eventStream c)")
           (simp_all add: iteration_event_closed iteration_event_blocked check_def)
    next
      case (Cons ev evs)
      with Cons.prems(2) have "ev \<noteq> Complete" "Complete \<notin> set evs" by auto
      with Cons EventStream event_error_ok [OF ok, of ev] show ?thesis
        by (simp add: iteration_event_ok check_def)
    qed
  next
    case WarningsStream
    show ?thesis
    proof (cases "items (warningsStream c)")
      case Nil
      with WarningsStream Cons.prems(1,2) show ?thesis
        by (cases "closes (warningsStream c)")
           (simp_all add: iteration_warnings_closed iteration_warnings_blocked check_def)
    next
      case (Cons w wrest)
      with WarningsStream Cons.prems(1,2) show ?thesis
        by (simp add: iteration_warnings_value check_def)
    qed
  next
    case ErrorStream
    with Cons.prems(3,4) show ?thesis by (simp add: iteration_error_blocked)
  qed
  then show ?case
  proof
    assume "iteration cfg app p c = Blocked"
    with Cons.IH [OF Cons.prems] show ?thesis by simp
  next
    assume "\<exists>c1. iteration cfg app p c = Continue c1 \<and> \<not> complete c1 \<and>
           Complete \<notin> set (items (eventStream c1)) \<and> errorStream c1 = errorStream c"
    then obtain c1 where c1: "iteration cfg app p c = Continue c1" "\<not> complete c1"
      "Complete \<notin> set (items (eventStream c1))" "errorStream c1 = errorStream c"
      by blast
    from Cons.prems(3,4) c1(4) have "items (errorStream c1) = []" "\<not> closes (errorStream c1)"
      by simp_all
    from Cons.IH [OF c1(2,3) this] c1(1) show ?thesis by simp
  qed
qed

section \<open>What has been displayed\<close>

lemma batches_shown_append: "batches_shown (a @ b) = batches_shown a @ batches_shown b"
  by (induction a rule: batches_shown.induct) simp_all

lemma text_calls_append: "text_calls (a @ b) = text_calls a @ text_calls b"
  by (induction a rule: text_calls.induct) simp_all

lemma batches_shown_event_calls: "batches_shown (event_calls cfg app ev) = []"
  by (cases ev; cases "CurrentUser cfg"; cases "snd (CurrentUser cfg)")
     (simp_all add: event_calls_def)

lemma text_calls_event_calls: "text_calls (event_calls cfg app ev) = event_calls cfg app ev"
  by (cases ev; cases "CurrentUser cfg"; cases "snd (CurrentUser cfg)")
     (simp_all add: event_calls_def)

lemma drop_eq_Cons:
  assumes "drop k xs = y # ys"
  shows "Suc k \<le> length xs" and "take (Suc k) xs = take k xs @ [y]" and "drop (Suc k) xs = ys"
proof -
  from assms have k: "k < length xs" by (cases "k < length xs") simp_all
  then show "Suc k \<le> length xs" by simp
  from k have "xs ! k # drop (Suc k) xs = drop k xs" by (rule Cons_nth_drop_Suc)
  with assms have "xs ! k = y" and d: "drop (Suc k) xs = ys" by simp_all
  with k show "take (Suc k) xs = take k xs @ [y]" by (simp add: take_Suc_conv_app_nth)
  from d show "drop (Suc k) xs = ys" .
qed

lemma follows_refl: "follows cfg app c c"
  unfolding follows_def
  by (rule exI [of _ "[]"], rule exI [of _ 0], rule exI [of _ 0], rule exI [of _ 0]) simp

lemma follows_same:
  assumes "follows cfg app c0 c"
      and "items (eventStream c1) = items (eventStream c)"
      and "items (warningsStream c1) = items (warningsStream c)"
      and "ui c1 = ui c"
  shows "follows cfg app c0 c1"
  using assms unfolding follows_def by simp

lemma follows_event:
  assumes f: "follows cfg app c0 c"
      and item: "items (eventStream c) = ev # evs"
      and e1: "items (eventStream c1) = evs"
      and w1: "items (warningsStream c1) = items (warningsStream c)"
      and u1: "ui c1 = ui c @ event_calls cfg app ev"
  shows "follows cfg app c0 c1"
proof -
  from f obtain new k j n where
        u: "ui c = ui c0 @ new"
    and k: "items (eventStream c) = drop k (items (eventStream c0))"
    and j: "j \<le> length (items (warningsStream c0))"
           "items (warningsStream c) = drop j (items (warningsStream c0))"
    and b: "batches_shown new = take j (items (warningsStream c0)) @ replicate n []"
    and n: "n = 0 \<or> items (warningsStream c) = []"
    and t: "text_calls new = concat (map (event_calls cfg app) (take k (items (eventStream c0))))"
    unfolding follows_def by blast
  from k item have d: "drop k (items (eventStream c0)) = ev # evs" by simp
  note dd = drop_eq_Cons [OF d]
  show ?thesis
    unfolding follows_def
    apply (rule exI [of _ "new @ event_calls cfg app ev"])
    apply (rule exI [of _ "Suc k"])
    apply (rule exI [of _ j])
    apply (rule exI [of _ n])
    using u j b n t dd e1 w1 u1
    apply (simp add: batches_shown_append text_calls_append batches_shown_event_calls
        text_calls_event_calls)
    done
qed

lemma follows_warnings:
  assumes f: "follows cfg app c0 c"
      and item: "items (warningsStream c) = w # wrest"
      and w1: "items (warningsStream c1) = wrest"
      and e1: "items (eventStream c1) = items (eventStream c)"
      and u1: "ui c1 = ui c @ [DisplayWarnings w]"
  shows "follows cfg app c0 c1"
proof -
  from f obtain new k j n where
        u: "ui c = ui c0 @ new"
    and k: "k \<le> length (items (eventStream c0))"
           "items (eventStream c) = drop k (items (eventStream c0))"
    and j: "items (warningsStream c) = drop j (items (warningsStream c0))"
    and b: "batches_shown new = take j (items (warningsStream c0)) @ replicate n []"
    and n: "n = 0 \<or> items (warningsStream c) = []"
    and t: "text_calls new = concat (map (event_calls cfg app) (take k (items (eventStream c0))))"
    unfolding follows_def by blast
  from n item have n0: "n = 0" by simp
  from j item have d: "drop j (items (warningsStream c0)) = w # wrest" by simp
  note dd = drop_eq_Cons [OF d]
  show ?thesis
    unfolding follows_def
    apply (rule exI [of _ "new @ [DisplayWarnings w]"])
    apply (rule exI [of _ k])
    apply (rule exI [of _ "Suc j"])
    apply (rule exI [of _ 0])
    using u k b n0 t dd e1 w1 u1
    apply (simp add: batches_shown_append text_calls_append)
    done
qed

lemma follows_warnings_closed:
  assumes f: "follows cfg app c0 c"
      and item: "items (warningsStream c) = []"
      and w1: "items (warningsStream c1) = []"
      and e1: "items (eventStream c1) = items (eventStream c)"
      and u1: "ui c1 = ui c @ [DisplayWarnings []]"
  shows "follows cfg app c0 c1"
proof -
  from f obtain new k j n where
        u: "ui c = ui c0 @ new"
    and k: "k \<le> length (items (eventStream c0))"
           "items (eventStream c) = drop k (items (eventStream c0))"
    and j: "j \<le> length (items (warningsStream c0))"
           "items (warningsStream c) = drop j (items (warningsStream c0))"
    and b: "batches_shown new = take j (items (warningsStream c0)) @ replicate n []"
    and t: "text_calls new = concat (map (event_calls cfg app) (take k (items (eventStream c0))))"
    unfolding follows_def by blast
  have r: "replicate n ([] :: string list) @ [[]] = replicate (Suc n) []"
    by (simp add: replicate_append_same)
  show ?thesis
    unfolding follows_def
    apply (rule exI [of _ "new @ [DisplayWarnings []]"])
    apply (rule exI [of _ k])
    apply (rule exI [of _ j])
    apply (rule exI [of _ "Suc n"])
    using u k j b t e1 w1 u1 item r
    apply (simp add: batches_shown_append text_calls_append del: replicate_Suc)
    done
qed

lemma iteration_follows:
  assumes f: "follows cfg app c0 c"
      and step: "iteration cfg app p c = Continue c1 \<or> iteration cfg app p c = Return e c1"
  shows "follows cfg app c0 c1"
proof (cases p)
  case EventStream
  show ?thesis
  proof (cases "items (eventStream c)")
    case Nil
    show ?thesis
    proof (cases "closes (eventStream c)")
      case True
      with Nil step EventStream have "c1 = c\<lparr>eventClosed := True\<rparr>"
        by (auto simp: iteration_event_closed check_def split: if_splits)
      with f show ?thesis by (auto intro: follows_same)
    next
      case False
      with Nil step EventStream show ?thesis by (simp add: iteration_event_blocked)
    qed
  next
    case (Cons ev evs)
    show ?thesis
    proof (cases "event_error cfg ev")
      case None
      with Cons step EventStream
      have "c1 = c\<lparr>eventStream := (eventStream c)\<lparr>items := evs\<rparr>, complete := (ev = Complete),
              ui := ui c @ event_calls cfg app ev\<rparr>"
        by (auto simp: iteration_event_ok check_def split: if_splits)
      then show ?thesis by (intro follows_event [OF f Cons]) simp_all
    next
      case (Some err)
      with Cons step EventStream
      have "c1 = c\<lparr>eventStream := (eventStream c)\<lparr>items := evs\<rparr>, complete := False\<rparr>"
        by (auto simp: iteration_event_fail)
      then show ?thesis
        by (intro follows_event [OF f Cons]) (simp_all add: event_calls_error [OF Some])
    qed
  qed
next
  case WarningsStream
  show ?thesis
  proof (cases "items (warningsStream c)")
    case Nil
    show ?thesis
    proof (cases "closes (warningsStream c)")
      case True
      with Nil step WarningsStream
      have "c1 = c\<lparr>warningsClosed := True, ui := ui c @ [DisplayWarnings []]\<rparr>"
        by (auto simp: iteration_warnings_closed check_def split: if_splits)
      then show ?thesis by (intro follows_warnings_closed [OF f Nil]) (simp_all add: Nil)
    next
      case False
      with Nil step WarningsStream show ?thesis by (simp add: iteration_warnings_blocked)
    qed
  next
    case (Cons w wrest)
    with step WarningsStream
    have "c1 = c\<lparr>warningsStream := (warningsStream c)\<lparr>items := wrest\<rparr>,
              ui := ui c @ [DisplayWarnings w]\<rparr>"
      by (auto simp: iteration_warnings_value check_def split: if_splits)
    then show ?thesis by (intro follows_warnings [OF f Cons]) simp_all
  qed
next
  case ErrorStream
  show ?thesis
  proof (cases "items (errorStream c)")
    case Nil
    show ?thesis
    proof (cases "closes (errorStream c)")
      case True
      with Nil step ErrorStream have "c1 = c\<lparr>warningsClosed := True\<rparr>"
        by (auto simp: iteration_error_closed)
      with f show ?thesis by (auto intro: follows_same)
    next
      case False
      with Nil step ErrorStream show ?thesis by (simp add: iteration_error_blocked)
    qed
  next
    case (Cons err rest)
    with step ErrorStream have "c1 = c\<lparr>errorStream := (errorStream c)\<lparr>items := rest\<rparr>\<rparr>"
      by (auto simp: iteration_error_value)
    with f show ?thesis by (auto intro: follows_same)
  qed
qed

lemma run_follows:
  "follows cfg app c0 c \<Longrightarrow> follows cfg app c0 (conf_of (run cfg app picks c))"
proof (induction picks arbitrary: c)
  case Nil
  then show ?case by (simp add: conf_of_def)
next
  case (Cons p ps)
  show ?case
  proof (cases "iteration cfg app p c")
    case Blocked
    with Cons show ?thesis by simp
  next
    case (Continue c1)
    then have "follows cfg app c0 c1" using iteration_follows [OF Cons.prems] by blast
    from Cons.IH [OF this] Continue show ?thesis by simp
  next
    case (Return e c1)
    then have "follows cfg app c0 c1" using iteration_follows [OF Cons.prems] by blast
    with Return show ?thesis by (simp add: conf_of_def)
  qed
qed

lemma rendered_append: "rendered (a @ b) = rendered a @ rendered b"
  by (simp add: rendered_def)

lemma warning_lines_append: "warning_lines (a @ b) = warning_lines a @ warning_lines b"
  by (induction a rule: warning_lines.induct) simp_all

lemma warning_lines_batch: "warning_lines (map WarningLine ws) = ws"
  by (induction ws) simp_all

lemma warning_lines_rendered: "warning_lines (rendered calls) = concat (batches_shown calls)"
  by (induction calls rule: batches_shown.induct)
     (simp_all add: rendered_def warning_lines_append warning_lines_batch)

lemma batch_was_called: "b \<in> set (batches_shown calls) \<Longrightarrow> DisplayWarnings b \<in> set calls"
  by (induction calls rule: batches_shown.induct) auto

lemma batch_contiguous:
  assumes "b \<in> set (batches_shown calls)"
  shows "\<exists>before after. rendered calls = before @ map WarningLine b @ after"
proof -
  from assms have "DisplayWarnings b \<in> set calls" by (rule batch_was_called)
  then obtain xs ys where "calls = xs @ DisplayWarnings b # ys" by (auto simp: in_set_conv_decomp)
  then have "rendered calls = rendered xs @ map WarningLine b @ rendered ys"
    by (simp add: rendered_def)
  then show ?thesis by blast
qed

lemma rendered_text_calls:
  "concat (batches_shown calls) = [] \<Longrightarrow> rendered calls = rendered (text_calls calls)"
  by (induction calls rule: batches_shown.induct) (simp_all add: rendered_def)

lemma event_calls_created:
  "snd (CurrentUser cfg) = None \<Longrightarrow>
   event_calls cfg app ApplicationCreated =
     [DisplayTextWithFlavor
        ''Creating app {{.AppName}} in org {{.OrgName}} / space {{.SpaceName}} as {{.Username}}...''
        [(''AppName'', DesiredApplicationName app),
         (''OrgName'', TargetedOrganizationName cfg),
         (''SpaceName'', TargetedSpaceName cfg),
         (''Username'', fst (CurrentUser cfg))]]"
  by (cases "CurrentUser cfg") (simp add: event_calls_def)


section \<open>The claims\<close>

text \<open>
  C2. At any point of any run, whatever was received before: when the \<^verbatim>\<open>select\<close>
  takes the error case and an error value \<open>err\<close> is delivered, \<^verbatim>\<open>processApplyStreams\<close>
  returns exactly \<open>err\<close>. The loop variables it returns with are those of the moment of
  the receipt but for the consumed error, so the UI is untouched: nothing is rendered after
  the error, whatever the later picks \<open>post\<close> would have been. With \<open>pre = []\<close> the error
  is the first item of the run.
\<close>

theorem error_returned_unchanged:
  assumes "processApplyStreams cmd appConfig pre es ws errs = Running c"
      and "items (errorStream c) = err # rest"
  shows "processApplyStreams cmd appConfig (pre @ ErrorStream # post) es ws errs
           = Returned err (c\<lparr>errorStream := (errorStream c)\<lparr>items := rest\<rparr>\<rparr>)
         \<and> ui (c\<lparr>errorStream := (errorStream c)\<lparr>items := rest\<rparr>\<rparr>) = ui c"
  using assms by (simp add: processApplyStreams_def run_append iteration_error_value)

text \<open>
  Witness for C2: one \<^verbatim>\<open>ApplicationCreated\<close> event, then an error on the error stream.
  The error is returned and the UI holds the single line of the event.
\<close>

theorem error_returned_unchanged_witness:
  "processApplyStreams cmd_ok app0 [EventStream] (staying_open [ApplicationCreated, RouteCreated])
       (staying_open [[''w'']]) (staying_open [Some (Error ''boom'')])
     = Running \<lparr>eventStream = staying_open [RouteCreated], warningsStream = staying_open [[''w'']],
         errorStream = staying_open [Some (Error ''boom'')],
         eventClosed = False, warningsClosed = False, complete = False,
         ui = event_calls cfg_ok app0 ApplicationCreated\<rparr>
   \<and> processApplyStreams cmd_ok app0 ([EventStream] @ ErrorStream # [EventStream, WarningsStream])
       (staying_open [ApplicationCreated, RouteCreated])
       (staying_open [[''w'']]) (staying_open [Some (Error ''boom'')])
     = Returned (Some (Error ''boom''))
        \<lparr>eventStream = staying_open [RouteCreated], warningsStream = staying_open [[''w'']],
         errorStream = staying_open [],
         eventClosed = False, warningsClosed = False, complete = False,
         ui = event_calls cfg_ok app0 ApplicationCreated\<rparr>"
proof -
  let ?c = "\<lparr>eventStream = staying_open [RouteCreated], warningsStream = staying_open [[''w'']],
         errorStream = staying_open [Some (Error ''boom'')],
         eventClosed = False, warningsClosed = False, complete = False,
         ui = event_calls cfg_ok app0 ApplicationCreated\<rparr>"
  have run: "processApplyStreams cmd_ok app0 [EventStream]
       (staying_open [ApplicationCreated, RouteCreated])
       (staying_open [[''w'']]) (staying_open [Some (Error ''boom'')]) = Running ?c"
    by (simp add: example_defs loop_defs event_calls_def)
  have next_item: "items (errorStream ?c) = Some (Error ''boom'') # []"
    by (simp add: staying_open_def)
  from error_returned_unchanged [OF run next_item, of "[EventStream, WarningsStream]"] run
  show ?thesis by (simp add: staying_open_def)
qed

text \<open>
  C10. An event that is none of the seven constants named by the \<^verbatim>\<open>switch\<close> falls
  through it: \<^verbatim>\<open>processEvent\<close> returns \<^verbatim>\<open>(false, nil)\<close> and leaves the UI as it was.
\<close>

theorem processEvent_unhandled:
  "ev \<notin> {ApplicationCreated, ApplicationUpdated, RouteCreated, RouteBound,
           UploadingApplication, UploadComplete, Complete}
   \<Longrightarrow> processEvent cfg appConfig ev u = ((False, None), u)"
  by (cases ev) simp_all

text \<open>Witness for C10: an event value outside the seven constants.\<close>

theorem processEvent_unhandled_witness:
  "OtherEvent ''Staging'' \<notin> {ApplicationCreated, ApplicationUpdated, RouteCreated, RouteBound,
           UploadingApplication, UploadComplete, Complete}
   \<and> processEvent cfg_ok app0 (OtherEvent ''Staging'') [DisplayText ''Getting app info...'']
       = ((False, None), [DisplayText ''Getting app info...''])"
  using processEvent_unhandled
    [of "OtherEvent ''Staging''" cfg_ok app0 "[DisplayText ''Getting app info...'']"]
  by simp

text \<open>
  C3 as stated fails: with no current user, the first \<^verbatim>\<open>ApplicationCreated\<close> event makes
  \<^verbatim>\<open>processApplyStreams\<close> return the error of the lookup.
\<close>

theorem rendering_error_counterexample:
  "processApplyStreams cmd_nouser app0 [EventStream]
       (staying_open [ApplicationCreated]) (staying_open []) (staying_open [])
     = Returned (Some (Error ''user not set''))
        \<lparr>eventStream = staying_open [], warningsStream = staying_open [],
         errorStream = staying_open [], eventClosed = False, warningsClosed = False,
         complete = False, ui = []\<rparr>"
  by (simp add: example_defs loop_defs)

text \<open>
  C3, as amended. Rendering can abort the run, in one way only. When the \<^verbatim>\<open>select\<close>
  delivers the event \<open>ev\<close> at any point of a run: if \<open>ev\<close> is \<^verbatim>\<open>ApplicationCreated\<close> or
  \<^verbatim>\<open>ApplicationUpdated\<close> and \<^verbatim>\<open>CurrentUser()\<close> fails, \<^verbatim>\<open>processApplyStreams\<close> returns
  that error and the UI is left as it was (no line); in every other case the loop goes
  on, with the calls of the event appended to the UI. An event makes at most one UI call.
\<close>

theorem rendering_error_aborts_run:
  assumes "processApplyStreams cmd appConfig pre es ws errs = Running c"
      and "items (eventStream c) = ev # evs"
  shows "(if (ev = ApplicationCreated \<or> ev = ApplicationUpdated)
             \<and> snd (CurrentUser (Config cmd)) \<noteq> None
          then processApplyStreams cmd appConfig (pre @ [EventStream]) es ws errs
                 = Returned (snd (CurrentUser (Config cmd)))
                     (c\<lparr>eventStream := (eventStream c)\<lparr>items := evs\<rparr>, complete := False\<rparr>)
          else processApplyStreams cmd appConfig (pre @ [EventStream]) es ws errs
                 = Running
                     (c\<lparr>eventStream := (eventStream c)\<lparr>items := evs\<rparr>, complete := (ev = Complete),
                        ui := ui c @ event_calls (Config cmd) appConfig ev\<rparr>))
         \<and> length (event_calls (Config cmd) appConfig ev) \<le> 1"
  using take_event [OF assms] event_calls_length [of "Config cmd" appConfig ev]
  by (auto simp: event_error_def)

text \<open>Witness for C3: \<^verbatim>\<open>ApplicationUpdated\<close> with no current user, at the start of a run.\<close>

theorem rendering_error_aborts_run_witness:
  "processApplyStreams cmd_nouser app0 [] (staying_open [ApplicationUpdated, Complete])
       (staying_open []) (staying_open [])
     = Running (start cmd_nouser (staying_open [ApplicationUpdated, Complete])
         (staying_open []) (staying_open []))
   \<and> processApplyStreams cmd_nouser app0 ([] @ [EventStream])
       (staying_open [ApplicationUpdated, Complete]) (staying_open []) (staying_open [])
     = Returned (Some (Error ''user not set''))
        \<lparr>eventStream = staying_open [Complete], warningsStream = staying_open [],
         errorStream = staying_open [], eventClosed = False, warningsClosed = False,
         complete = False, ui = []\<rparr>"
proof -
  let ?c = "start cmd_nouser (staying_open [ApplicationUpdated, Complete])
         (staying_open []) (staying_open [])"
  have run: "processApplyStreams cmd_nouser app0 [] (staying_open [ApplicationUpdated, Complete])
       (staying_open []) (staying_open []) = Running ?c"
    by (simp add: processApplyStreams_def)
  have item: "items (eventStream ?c) = ApplicationUpdated # [Complete]"
    by (simp add: start_def staying_open_def)
  from rendering_error_aborts_run [OF run item] run show ?thesis
    by (simp add: example_defs start_def)
qed

text \<open>
  C4 as stated fails: after the pass that recorded the events stream as closed, a second
  pass on the same case is not blocked; it receives from the closed stream again.
\<close>

theorem closed_stream_read_again_counterexample:
  "processApplyStreams cmd_ok app0 [EventStream] (closing []) (staying_open []) (staying_open [])
     = Running \<lparr>eventStream = closing [], warningsStream = staying_open [],
         errorStream = staying_open [], eventClosed = True, warningsClosed = False,
         complete = False, ui = []\<rparr>
   \<and> receive (closing ([] :: Event list)) = Some (Closed, closing [])
   \<and> iteration cfg_ok app0 EventStream
       \<lparr>eventStream = closing [], warningsStream = staying_open [],
         errorStream = staying_open [], eventClosed = True, warningsClosed = False,
         complete = False, ui = []\<rparr>
     = Continue \<lparr>eventStream = closing [], warningsStream = staying_open [],
         errorStream = staying_open [], eventClosed = True, warningsClosed = False,
         complete = False, ui = []\<rparr>"
  by (simp add: example_defs loop_defs)

text \<open>
  C4, as amended. The \<^verbatim>\<open>select\<close> keeps all three cases for the whole run. In every
  state a run reaches without having returned: if \<^verbatim>\<open>eventClosed\<close> is set, a receive from
  the events stream succeeds again with \<^verbatim>\<open>ok == false\<close>, and the pass that takes this
  case leaves the state as it is; if \<^verbatim>\<open>warningsClosed\<close> is set, the warnings stream is
  read again likewise and the pass calls \<^verbatim>\<open>DisplayWarnings\<close> with the \<^verbatim>\<open>nil\<close> batch once
  more.
\<close>

theorem closed_stream_stays_in_select:
  assumes "processApplyStreams cmd appConfig picks es ws errs = Running c"
  shows "(eventClosed c \<longrightarrow>
            receive (eventStream c) = Some (Closed, eventStream c) \<and>
            iteration (Config cmd) appConfig EventStream c = Continue c) \<and>
         (warningsClosed c \<longrightarrow>
            receive (warningsStream c) = Some (Closed, warningsStream c) \<and>
            iteration (Config cmd) appConfig WarningsStream c
              = Continue (c\<lparr>ui := ui c @ [DisplayWarnings []]\<rparr>))"
proof -
  from assms have ok: "flags_ok c" by (rule running_flags)
  have ev: "receive (eventStream c) = Some (Closed, eventStream c) \<and>
            iteration (Config cmd) appConfig EventStream c = Continue c" if "eventClosed c"
  proof -
    from ok that have e: "items (eventStream c) = []" "closes (eventStream c)"
      and n: "\<not> (warningsClosed c \<and> complete c)"
      by (simp_all add: flags_ok_def)
    have "c\<lparr>eventClosed := True\<rparr> = c" using that by simp
    with e n that show ?thesis
      by (simp add: receive_closed iteration_event_closed check_def)
  qed
  have wa: "receive (warningsStream c) = Some (Closed, warningsStream c) \<and>
            iteration (Config cmd) appConfig WarningsStream c
              = Continue (c\<lparr>ui := ui c @ [DisplayWarnings []]\<rparr>)" if "warningsClosed c"
  proof -
    from ok that have e: "items (warningsStream c) = []" "closes (warningsStream c)"
      and n: "\<not> (eventClosed c \<and> complete c)"
      by (simp_all add: flags_ok_def)
    have "c\<lparr>warningsClosed := True, ui := ui c @ [DisplayWarnings []]\<rparr>
            = c\<lparr>ui := ui c @ [DisplayWarnings []]\<rparr>" using that by simp
    with e n that show ?thesis
      by (simp add: receive_closed iteration_warnings_closed check_def)
  qed
  from ev wa show ?thesis by blast
qed

text \<open>Witness for C4: both streams closed and recorded, the terminal marker never seen.\<close>

theorem closed_stream_stays_in_select_witness:
  "processApplyStreams cmd_ok app0 [EventStream, WarningsStream] (closing []) (closing []) (staying_open [])
     = Running \<lparr>eventStream = closing [], warningsStream = closing [],
         errorStream = staying_open [], eventClosed = True, warningsClosed = True,
         complete = False, ui = [DisplayWarnings []]\<rparr>
   \<and> iteration cfg_ok app0 EventStream
       \<lparr>eventStream = closing [], warningsStream = closing [],
         errorStream = staying_open [], eventClosed = True, warningsClosed = True,
         complete = False, ui = [DisplayWarnings []]\<rparr>
     = Continue \<lparr>eventStream = closing [], warningsStream = closing [],
         errorStream = staying_open [], eventClosed = True, warningsClosed = True,
         complete = False, ui = [DisplayWarnings []]\<rparr>
   \<and> iteration cfg_ok app0 WarningsStream
       \<lparr>eventStream = closing [], warningsStream = closing [],
         errorStream = staying_open [], eventClosed = True, warningsClosed = True,
         complete = False, ui = [DisplayWarnings []]\<rparr>
     = Continue \<lparr>eventStream = closing [], warningsStream = closing [],
         errorStream = staying_open [], eventClosed = True, warningsClosed = True,
         complete = False, ui = [DisplayWarnings [], DisplayWarnings []]\<rparr>"
proof -
  let ?c = "\<lparr>eventStream = closing [], warningsStream = closing [],
         errorStream = staying_open [], eventClosed = True, warningsClosed = True,
         complete = False, ui = [DisplayWarnings []]\<rparr>"
  have run: "processApplyStreams cmd_ok app0 [EventStream, WarningsStream] (closing []) (closing [])
      (staying_open []) = Running ?c"
    by (simp add: example_defs loop_defs)
  from closed_stream_stays_in_select [OF run] run show ?thesis
    by (simp add: cmd_ok_def)
qed

text \<open>
  C5. After \<^verbatim>\<open>Complete\<close> the loop does go on, but the pass that finds the error stream
  closed returns \<^verbatim>\<open>nil\<close> at once: below, success is returned while the events stream was
  never read closed and a warning batch is still waiting, unshown.
\<close>

theorem success_before_streams_close:
  "processApplyStreams cmd_ok app0 [EventStream, ErrorStream]
       (closing [Complete]) (closing [[''disk quota near limit'']]) (closing [])
     = Returned None
        \<lparr>eventStream = closing [], warningsStream = closing [[''disk quota near limit'']],
         errorStream = closing [], eventClosed = False, warningsClosed = True,
         complete = True, ui = []\<rparr>"
  by (simp add: example_defs loop_defs)




text \<open>
  C1 as stated fails: \<^verbatim>\<open>complete\<close> is assigned anew by every event, so an event after
  \<^verbatim>\<open>Complete\<close> resets it. Below, both streams have been read closed and \<^verbatim>\<open>Complete\<close> was
  received, yet the function has not returned, and no later pass can set \<^verbatim>\<open>complete\<close>.
\<close>

theorem terminal_marker_overwritten_counterexample:
  "processApplyStreams cmd_ok app0 [EventStream, EventStream, EventStream, WarningsStream]
       (closing [Complete, RouteCreated]) (closing []) (staying_open [])
     = Running
        \<lparr>eventStream = closing [], warningsStream = closing [], errorStream = staying_open [],
         eventClosed = True, warningsClosed = True, complete = False,
         ui = [DisplayText ''Creating routes...'', DisplayWarnings []]\<rparr>"
  by (simp add: example_defs loop_defs)

text \<open>
  C1, as amended, for an error stream that stays open and silent. Whatever the picks:
  \<^item> while \<^verbatim>\<open>processApplyStreams\<close> has not returned, \<^verbatim>\<open>eventClosed && warningsClosed && complete\<close>
    is false; and if both streams close, the last event is \<^verbatim>\<open>Complete\<close> and the
    current-user lookup works, the function can be still running only while the events
    case was taken at most as often as there are events, or the warnings case at most as
    often as there are batches: one more pick of each and it has returned;
  \<^item> when it returns \<^verbatim>\<open>nil\<close>, the three flags are set, both streams were closed by the
    producer and read to their end, and the last event of the events stream was
    \<^verbatim>\<open>Complete\<close>;
  \<^item> when it returns an error, that error is the one of the current-user lookup.
\<close>

theorem run_ends_in_two_ways:
  assumes "items errs = []" and "\<not> closes errs"
  shows "case processApplyStreams cmd appConfig picks es ws errs of
           Running c \<Rightarrow>
             \<not> (eventClosed c \<and> warningsClosed c \<and> complete c) \<and>
             (closes es \<and> closes ws \<and> items es \<noteq> [] \<and> last (items es) = Complete \<and>
              snd (CurrentUser (Config cmd)) = None \<longrightarrow>
                count_list picks EventStream \<le> length (items es) \<or>
                count_list picks WarningsStream \<le> length (items ws))
         | Returned None c \<Rightarrow>
             eventClosed c \<and> warningsClosed c \<and> complete c \<and>
             closes es \<and> items (eventStream c) = [] \<and>
             closes ws \<and> items (warningsStream c) = [] \<and>
             items es \<noteq> [] \<and> last (items es) = Complete
         | Returned (Some err) c \<Rightarrow> snd (CurrentUser (Config cmd)) = Some err"
proof -
  let ?c0 = "start cmd es ws errs"
  have inv0: "loop_inv es ws ?c0" by (rule loop_inv_start)
  have flags0: "\<not> (eventClosed ?c0 \<and> warningsClosed ?c0 \<and> complete ?c0)"
    by (simp add: start_def)
  from assms
  have err0: "ErrorStream \<notin> set picks \<or> (items (errorStream ?c0) = [] \<and> \<not> closes (errorStream ?c0))"
    by (simp add: start_def)
  note outcome = run_inv [OF inv0 flags0 err0, of "Config cmd" appConfig]
  show ?thesis
  proof (cases "processApplyStreams cmd appConfig picks es ws errs")
    case (Running c)
    then have run: "run (Config cmd) appConfig picks ?c0 = Running c"
      by (simp add: processApplyStreams_def)
    with outcome have 1: "\<not> (eventClosed c \<and> warningsClosed c \<and> complete c)" by simp
    have 2: "count_list picks EventStream \<le> length (items es) \<or>
             count_list picks WarningsStream \<le> length (items ws)"
      if "closes es" "closes ws" "items es \<noteq> []" "last (items es) = Complete"
         "snd (CurrentUser (Config cmd)) = None"
      using run_live [OF inv0 flags0 err0 that run]
      by (simp add: reads_left_def start_def less_Suc_eq_le)
    from 1 2 Running show ?thesis by simp
  next
    case (Returned e c)
    then have run: "run (Config cmd) appConfig picks ?c0 = Returned e c"
      by (simp add: processApplyStreams_def)
    show ?thesis
    proof (cases e)
      case None
      with outcome run have "loop_inv es ws c" and f: "eventClosed c" "warningsClosed c" "complete c"
        by simp_all
      with f have "closes es \<and> items (eventStream c) = [] \<and>
             closes ws \<and> items (warningsStream c) = [] \<and>
             items es \<noteq> [] \<and> last (items es) = Complete"
        by (auto simp: loop_inv_def)
      with f Returned None show ?thesis by simp
    next
      case (Some err)
      with outcome run Returned show ?thesis by simp
    qed
  qed
qed

text \<open>Witness for C1: two events ending in \<^verbatim>\<open>Complete\<close>, one warning batch, both streams closed.\<close>

theorem run_ends_in_two_ways_witness:
  "items (staying_open ([] :: error option list)) = []
   \<and> \<not> closes (staying_open ([] :: error option list))
   \<and> (\<exists>c. processApplyStreams cmd_ok app0
              [EventStream, WarningsStream, EventStream, EventStream, WarningsStream]
              (closing [RouteCreated, Complete]) (closing [[''w'']]) (staying_open [])
            = Returned None c
          \<and> eventClosed c \<and> warningsClosed c \<and> complete c
          \<and> items (eventStream c) = [] \<and> items (warningsStream c) = [])"
proof -
  let ?picks = "[EventStream, WarningsStream, EventStream, EventStream, WarningsStream]"
  let ?r = "processApplyStreams cmd_ok app0 ?picks
              (closing [RouteCreated, Complete]) (closing [[''w'']]) (staying_open [])"
  have silent: "items (staying_open ([] :: error option list)) = []"
    "\<not> closes (staying_open ([] :: error option list))"
    by (simp_all add: staying_open_def)
  note outcome = run_ends_in_two_ways [where cmd = cmd_ok and appConfig = app0
      and picks = ?picks and es = "closing [RouteCreated, Complete]"
      and ws = "closing [[''w'']]", OF silent]
  have "\<exists>c. ?r = Returned None c
          \<and> eventClosed c \<and> warningsClosed c \<and> complete c
          \<and> items (eventStream c) = [] \<and> items (warningsStream c) = []"
  proof (cases ?r)
    case (Running c)
    with outcome show ?thesis by (simp add: example_defs)
  next
    case (Returned e c)
    with outcome show ?thesis by (cases e) (simp_all add: example_defs)
  qed
  with silent show ?thesis by simp
qed

text \<open>
  C6. The six events of the scenario, then the events stream closed; no warning batch, the
  warnings stream closed; the error stream closed with no item; a command whose
  current-user lookup works. The closed error stream is ready from the first pass on.
  When the \<^verbatim>\<open>select\<close> takes it first, the error case finds \<^verbatim>\<open>ok == false\<close>, sets
  \<^verbatim>\<open>warningsClosed\<close> and returns \<^verbatim>\<open>err\<close>, which is \<^verbatim>\<open>nil\<close>: \<^verbatim>\<open>processApplyStreams\<close>
  returns success with no event received and no line rendered, not five.
\<close>

theorem scenario_A_error_stream_closed_first:
  "processApplyStreams cmd_ok app0 [ErrorStream]
       (closing [ApplicationCreated, RouteCreated, RouteBound, UploadingApplication,
                 UploadComplete, Complete])
       (closing []) (closing [])
     = Returned None
        \<lparr>eventStream = closing [ApplicationCreated, RouteCreated, RouteBound,
                                  UploadingApplication, UploadComplete, Complete],
         warningsStream = closing [], errorStream = closing [],
         eventClosed = False, warningsClosed = True, complete = False, ui = []\<rparr>
   \<and> rendered ([] :: ui_call list) = []"
  by (simp add: example_defs loop_defs rendered_def)

text \<open>
  The other two cases of the \<^verbatim>\<open>select\<close> do reach the test after it. On the same
  streams, when the current-user lookup works and the error case is not taken, then for
  every order of picks: \<^verbatim>\<open>processApplyStreams\<close> is still running only if the events case
  was taken fewer than 7 times or the warnings case not at all; and once it returns, it
  returns \<^verbatim>\<open>nil\<close> and the run has rendered exactly the five lines of the first five
  events (\<^verbatim>\<open>Complete\<close> renders none), after whatever the UI held before.
\<close>

lemma scenario_A_without_error_case:
  assumes "snd (CurrentUser (Config cmd)) = None" and "ErrorStream \<notin> set picks"
  shows "case processApplyStreams cmd appConfig picks
                (closing [ApplicationCreated, RouteCreated, RouteBound, UploadingApplication,
                          UploadComplete, Complete])
                (closing []) (closing []) of
           Running c \<Rightarrow> count_list picks EventStream < 7 \<or> count_list picks WarningsStream < 1
         | Returned err c \<Rightarrow>
             err = None \<and>
             rendered (ui c) = rendered (UI cmd) @
               [FlavorLine
                  ''Creating app {{.AppName}} in org {{.OrgName}} / space {{.SpaceName}} as {{.Username}}...''
                  [(''AppName'', DesiredApplicationName appConfig),
                   (''OrgName'', TargetedOrganizationName (Config cmd)),
                   (''SpaceName'', TargetedSpaceName (Config cmd)),
                   (''Username'', fst (CurrentUser (Config cmd)))],
                TextLine ''Creating routes...'',
                TextLine ''Binding routes...'',
                TextLine ''Uploading application...'',
                TextLine ''Upload complete'']"
proof -
  let ?evs = "[ApplicationCreated, RouteCreated, RouteBound, UploadingApplication,
               UploadComplete, Complete]"
  let ?es = "closing ?evs"
  let ?ws = "closing [] :: Warnings chan"
  let ?c0 = "start cmd ?es ?ws (closing [])"
  have inv0: "loop_inv ?es ?ws ?c0" by (rule loop_inv_start)
  have flags0: "\<not> (eventClosed ?c0 \<and> warningsClosed ?c0 \<and> complete ?c0)"
    by (simp add: start_def)
  from assms(2)
  have err0: "ErrorStream \<notin> set picks \<or> (items (errorStream ?c0) = [] \<and> \<not> closes (errorStream ?c0))"
    by simp
  note outcome = run_inv [OF inv0 flags0 err0, of "Config cmd" appConfig]
  show ?thesis
  proof (cases "processApplyStreams cmd appConfig picks ?es ?ws (closing [])")
    case (Running c)
    then have run: "run (Config cmd) appConfig picks ?c0 = Running c"
      by (simp add: processApplyStreams_def)
    have "closes ?es" "closes ?ws" "items ?es \<noteq> []" "last (items ?es) = Complete"
      by (simp_all add: closing_def)
    from run_live [OF inv0 flags0 err0 this assms(1) run]
    have "count_list picks EventStream < 7 \<or> count_list picks WarningsStream < 1"
      by (simp add: reads_left_def start_def closing_def eval_nat_numeral)
    with Running show ?thesis by simp
  next
    case (Returned e c)
    then have run: "run (Config cmd) appConfig picks ?c0 = Returned e c"
      by (simp add: processApplyStreams_def)
    from outcome run assms(1) have e: "e = None" by (cases e) simp_all
    with outcome run have inv: "loop_inv ?es ?ws c" and "eventClosed c" by simp_all
    then have drained: "items (eventStream c) = []" by (simp add: loop_inv_def)
    have "follows (Config cmd) appConfig ?c0 (conf_of (run (Config cmd) appConfig picks ?c0))"
      by (rule run_follows [OF follows_refl])
    with run have "follows (Config cmd) appConfig ?c0 c" by (simp add: conf_of_def)
    then obtain new k j n where u: "ui c = UI cmd @ new"
      and k: "items (eventStream c) = drop k ?evs"
      and j: "j \<le> length ([] :: Warnings list)"
      and b: "batches_shown new = take j ([] :: Warnings list) @ replicate n []"
      and t: "text_calls new = concat (map (event_calls (Config cmd) appConfig) (take k ?evs))"
      unfolding follows_def by (auto simp: start_def closing_def)
    from k drained have "take k ?evs = ?evs" by simp
    with t have t': "text_calls new = concat (map (event_calls (Config cmd) appConfig) ?evs)"
      by simp
    from b have "concat (batches_shown new) = []" by simp
    then have "rendered new = rendered (text_calls new)" by (rule rendered_text_calls)
    also have "\<dots> = [FlavorLine
                  ''Creating app {{.AppName}} in org {{.OrgName}} / space {{.SpaceName}} as {{.Username}}...''
                  [(''AppName'', DesiredApplicationName appConfig),
                   (''OrgName'', TargetedOrganizationName (Config cmd)),
                   (''SpaceName'', TargetedSpaceName (Config cmd)),
                   (''Username'', fst (CurrentUser (Config cmd)))],
                TextLine ''Creating routes...'',
                TextLine ''Binding routes...'',
                TextLine ''Uploading application...'',
                TextLine ''Upload complete'']"
      unfolding t' by (simp add: event_calls_created [OF assms(1)] rendered_def)
         (simp add: event_calls_def)
    finally show ?thesis using Returned e u by (simp add: rendered_append)
  qed
qed

text \<open>For instance, seven picks of the events case and one of the warnings case.\<close>

lemma scenario_A_without_error_case_example:
  "snd (CurrentUser (Config cmd_ok)) = None
   \<and> ErrorStream \<notin> set [EventStream, EventStream, EventStream, WarningsStream, EventStream,
                           EventStream, EventStream, EventStream]
   \<and> (\<exists>c. processApplyStreams cmd_ok app0
              [EventStream, EventStream, EventStream, WarningsStream, EventStream,
               EventStream, EventStream, EventStream]
              (closing [ApplicationCreated, RouteCreated, RouteBound, UploadingApplication,
                        UploadComplete, Complete])
              (closing []) (closing [])
            = Returned None c
          \<and> rendered (ui c) =
               [FlavorLine
                  ''Creating app {{.AppName}} in org {{.OrgName}} / space {{.SpaceName}} as {{.Username}}...''
                  [(''AppName'', ''app''), (''OrgName'', ''org''), (''SpaceName'', ''space''),
                   (''Username'', ''admin'')],
                TextLine ''Creating routes...'',
                TextLine ''Binding routes...'',
                TextLine ''Uploading application...'',
                TextLine ''Upload complete''])"
proof -
  let ?picks = "[EventStream, EventStream, EventStream, WarningsStream, EventStream,
                 EventStream, EventStream, EventStream]"
  let ?r = "processApplyStreams cmd_ok app0 ?picks
              (closing [ApplicationCreated, RouteCreated, RouteBound, UploadingApplication,
                        UploadComplete, Complete])
              (closing []) (closing [])"
  have ok: "snd (CurrentUser (Config cmd_ok)) = None" by (simp add: example_defs)
  have noerr: "ErrorStream \<notin> set ?picks" by simp
  note outcome = scenario_A_without_error_case [where appConfig = app0, OF ok noerr]
  have "\<exists>c. ?r = Returned None c
          \<and> rendered (ui c) =
               [FlavorLine
                  ''Creating app {{.AppName}} in org {{.OrgName}} / space {{.SpaceName}} as {{.Username}}...''
                  [(''AppName'', ''app''), (''OrgName'', ''org''), (''SpaceName'', ''space''),
                   (''Username'', ''admin'')],
                TextLine ''Creating routes...'',
                TextLine ''Binding routes...'',
                TextLine ''Uploading application...'',
                TextLine ''Upload complete'']"
  proof (cases ?r)
    case (Running c)
    with outcome show ?thesis by simp
  next
    case (Returned e c)
    with outcome show ?thesis by (simp add: example_defs rendered_def)
  qed
  with ok noerr show ?thesis by blast
qed

text \<open>
  C7 as stated fails for a command whose current-user lookup fails: the events stream
  never delivers \<^verbatim>\<open>Complete\<close> and nothing arrives on the error stream, yet the function
  returns (the error of the lookup, on \<^verbatim>\<open>ApplicationUpdated\<close>).
\<close>

theorem hang_counterexample:
  "processApplyStreams cmd_nouser app0 [WarningsStream, EventStream]
       (closing [ApplicationUpdated]) (closing []) (staying_open [])
     = Returned (Some (Error ''user not set''))
        \<lparr>eventStream = closing [], warningsStream = closing [], errorStream = staying_open [],
         eventClosed = False, warningsClosed = True, complete = False,
         ui = [DisplayWarnings []]\<rparr>"
  by (simp add: example_defs loop_defs)

text \<open>
  C7, as amended. If the events stream never delivers \<^verbatim>\<open>Complete\<close> (whether it is closed
  or not), the error stream stays open and silent, and the current-user lookup works,
  then \<^verbatim>\<open>processApplyStreams\<close> has not returned after any sequence of picks, however long:
  it never returns.
\<close>

theorem hangs_without_terminal_marker:
  assumes "Complete \<notin> set (items es)"
      and "items errs = []" and "\<not> closes errs"
      and "snd (CurrentUser (Config cmd)) = None"
  shows "\<exists>c. processApplyStreams cmd appConfig picks es ws errs = Running c \<and> \<not> complete c"
  unfolding processApplyStreams_def
  using assms by (intro run_hangs) (simp_all add: start_def)

text \<open>Witness for C7: two events and the close of the events stream, no \<^verbatim>\<open>Complete\<close>.\<close>

theorem hangs_without_terminal_marker_witness:
  "Complete \<notin> set (items (closing [ApplicationCreated, RouteCreated]))
   \<and> items (staying_open ([] :: error option list)) = []
   \<and> \<not> closes (staying_open ([] :: error option list))
   \<and> snd (CurrentUser (Config cmd_ok)) = None
   \<and> (\<exists>c. processApplyStreams cmd_ok app0
              [EventStream, EventStream, EventStream, WarningsStream, ErrorStream, EventStream,
               WarningsStream]
              (closing [ApplicationCreated, RouteCreated]) (closing []) (staying_open [])
            = Running c \<and> \<not> complete c)"
proof -
  have 1: "Complete \<notin> set (items (closing [ApplicationCreated, RouteCreated]))"
    by (simp add: closing_def)
  have 2: "items (staying_open ([] :: error option list)) = []"
    and 3: "\<not> closes (staying_open ([] :: error option list))"
    by (simp_all add: staying_open_def)
  have 4: "snd (CurrentUser (Config cmd_ok)) = None" by (simp add: example_defs)
  from hangs_without_terminal_marker [where appConfig = app0 and ws = "closing []"
      and picks = "[EventStream, EventStream, EventStream, WarningsStream, ErrorStream,
                    EventStream, WarningsStream]", OF 1 2 3 4] 1 2 3 4
  show ?thesis by blast
qed

text \<open>
  C8. For every run, returned or not, whatever the picks: the UI has grown by calls
  \<open>shown\<close>; the warnings stream has delivered its first \<open>k\<close> batches; the batches handed to
  \<^verbatim>\<open>DisplayWarnings\<close> are exactly these \<open>k\<close> batches, whole and in the order received
  (followed by \<open>n\<close> \<^verbatim>\<open>nil\<close> batches from reading the closed stream, which render nothing);
  the warning lines rendered are the lines of these batches in order; and the lines of
  each batch stand together in the rendered output, whatever events came in between.
\<close>

theorem warning_batches_in_order:
  "\<exists>shown k n.
     ui (conf_of (processApplyStreams cmd appConfig picks es ws errs)) = UI cmd @ shown \<and>
     k \<le> length (items ws) \<and>
     items (warningsStream (conf_of (processApplyStreams cmd appConfig picks es ws errs)))
       = drop k (items ws) \<and>
     batches_shown shown = take k (items ws) @ replicate n [] \<and>
     warning_lines (rendered shown) = concat (take k (items ws)) \<and>
     (\<forall>b \<in> set (take k (items ws)).
        \<exists>before after. rendered shown = before @ map WarningLine b @ after)"
proof -
  let ?c = "conf_of (processApplyStreams cmd appConfig picks es ws errs)"
  have "follows (Config cmd) appConfig (start cmd es ws errs) ?c"
    unfolding processApplyStreams_def by (rule run_follows [OF follows_refl])
  then obtain shown j n where u: "ui ?c = UI cmd @ shown"
    and j: "j \<le> length (items ws)" "items (warningsStream ?c) = drop j (items ws)"
    and b: "batches_shown shown = take j (items ws) @ replicate n []"
    unfolding follows_def by (auto simp: start_def)
  from b have l: "warning_lines (rendered shown) = concat (take j (items ws))"
    by (simp add: warning_lines_rendered)
  have "\<exists>before after. rendered shown = before @ map WarningLine x @ after"
    if "x \<in> set (take j (items ws))" for x
    using that b by (intro batch_contiguous) simp
  with u j b l show ?thesis by blast
qed

text \<open>Witness for C8: a batch of two, an event, a batch of one.\<close>

theorem warning_batches_in_order_witness:
  "processApplyStreams cmd_ok app0 [WarningsStream, EventStream, WarningsStream]
       (staying_open [RouteCreated]) (staying_open [[''a'', ''b''], [''c'']]) (staying_open [])
     = Running
         \<lparr>eventStream = staying_open [], warningsStream = staying_open [],
          errorStream = staying_open [], eventClosed = False, warningsClosed = False,
          complete = False,
          ui = [DisplayWarnings [''a'', ''b''], DisplayText ''Creating routes...'',
                DisplayWarnings [''c'']]\<rparr>
   \<and> (\<exists>shown. shown = [DisplayWarnings [''a'', ''b''], DisplayText ''Creating routes...'',
                DisplayWarnings [''c'']]
        \<and> warning_lines (rendered shown) = [''a'', ''b'', ''c'']
        \<and> (\<exists>before after. rendered shown = before @ map WarningLine [''a'', ''b''] @ after)
        \<and> (\<exists>before after. rendered shown = before @ map WarningLine [''c''] @ after))"
proof -
  let ?r = "processApplyStreams cmd_ok app0 [WarningsStream, EventStream, WarningsStream]
       (staying_open [RouteCreated]) (staying_open [[''a'', ''b''], [''c'']]) (staying_open [])"
  let ?ui = "[DisplayWarnings [''a'', ''b''], DisplayText ''Creating routes...'',
                DisplayWarnings [''c'']]"
  have run: "?r = Running
         \<lparr>eventStream = staying_open [], warningsStream = staying_open [],
          errorStream = staying_open [], eventClosed = False, warningsClosed = False,
          complete = False, ui = ?ui\<rparr>"
    by (simp add: example_defs loop_defs)
  from warning_batches_in_order [of cmd_ok app0 "[WarningsStream, EventStream, WarningsStream]"
      "staying_open [RouteCreated]" "staying_open [[''a'', ''b''], [''c'']]" "staying_open []"]
  obtain shown k where u: "ui (conf_of ?r) = UI cmd_ok @ shown"
    and k: "k \<le> length (items (staying_open [[''a'', ''b''], [''c'']]))"
           "items (warningsStream (conf_of ?r)) = drop k (items (staying_open [[''a'', ''b''], [''c'']]))"
    and l: "warning_lines (rendered shown) = concat (take k (items (staying_open [[''a'', ''b''], [''c'']])))"
    and c: "\<forall>b \<in> set (take k (items (staying_open [[''a'', ''b''], [''c'']]))).
              \<exists>before after. rendered shown = before @ map WarningLine b @ after"
    by blast
  from u run have shown: "shown = ?ui" by (simp add: conf_of_def cmd_ok_def)
  from k run have "k = 2" by (simp add: conf_of_def staying_open_def)
  with l c have "warning_lines (rendered shown) = [''a'', ''b'', ''c'']"
    and "\<exists>before after. rendered shown = before @ map WarningLine [''a'', ''b''] @ after"
    and "\<exists>before after. rendered shown = before @ map WarningLine [''c''] @ after"
    by (simp_all add: staying_open_def)
  with shown run show ?thesis by blast
qed

end
